theory Spec2Isabelle
  imports Complex_Main
begin

section \<open>plot\_loss.py: extracting and plotting validation losses\<close>

text \<open>
  The program reads a training log line by line, searches every line for
  \<^verbatim>\<open>step:(\d+)/(\d+)\s+val_loss:([\d.]+)\<close>, converts the first and the third group
  with \<^verbatim>\<open>int\<close> and \<^verbatim>\<open>float\<close>, and appends them to two lists, which it then
  summarises and hands to the plotting library.

  A text is a \<^typ>\<open>string\<close>: every \<^typ>\<open>char\<close> stands for the code point of the same
  number, so the texts of the model are those whose code points are below 256. Among
  these code points the decimal digits of \<^verbatim>\<open>\d\<close> are \<^verbatim>\<open>0\<close> to \<^verbatim>\<open>9\<close>, and the
  white space of \<^verbatim>\<open>\s\<close> is the set listed in \<open>is_space\<close>.
\<close>

subsection \<open>Errors and floats\<close>

datatype error =
    ValueError | FileNotFoundError | IsADirectoryError | PermissionError | UnicodeDecodeError

text \<open>
  A Python float: a finite number (held as the rational it is exactly equal to), one of
  the two infinities, or not-a-number.
\<close>

datatype pyfloat = Fin rat | PosInf | NegInf | NaN

subsection \<open>The regular expression\<close>

definition is_digit :: "char \<Rightarrow> bool" where
  "is_digit c = (48 \<le> (of_char c :: nat) \<and> (of_char c :: nat) \<le> 57)"

definition is_space :: "char \<Rightarrow> bool" where
  "is_space c = ((of_char c :: nat) \<in> {9, 10, 11, 12, 13, 28, 29, 30, 31, 32, 133, 160})"

text \<open>The three character classes of the pattern: \<^verbatim>\<open>\d\<close>, \<^verbatim>\<open>\s\<close> and \<^verbatim>\<open>[\d.]\<close>.\<close>

datatype cclass = Digit | Space | DigitOrDot

fun in_class :: "cclass \<Rightarrow> char \<Rightarrow> bool" where
  "in_class Digit c = is_digit c"
| "in_class Space c = is_space c"
| "in_class DigitOrDot c = (is_digit c \<or> c = CHR ''.'')"

text \<open>
  The pieces the pattern is made of: a literal text, a greedy \<^verbatim>\<open>+\<close> over a character
  class, and the same inside a capturing group.
\<close>

datatype node = Literal string | OneOrMore cclass | GroupOneOrMore cclass

definition pattern :: "node list" where
  "pattern = [Literal ''step:'', GroupOneOrMore Digit, Literal ''/'', GroupOneOrMore Digit,
              OneOrMore Space, Literal ''val_loss:'', GroupOneOrMore DigitOrDot]"

text \<open>
  \<open>first_some f n\<close> tries \<open>f n\<close>, \<open>f (n - 1)\<close>, ..., \<open>f 1\<close> and returns the first
  success: the order in which a greedy \<^verbatim>\<open>+\<close> gives characters back when the rest of
  the pattern fails.
\<close>

fun first_some :: "(nat \<Rightarrow> 'a option) \<Rightarrow> nat \<Rightarrow> 'a option" where
  "first_some f 0 = None"
| "first_some f (Suc n) = (case f (Suc n) of Some r \<Rightarrow> Some r | None \<Rightarrow> first_some f n)"

text \<open>
  Matching a pattern at the start of a text, by backtracking. The result is the list of
  the captured groups, in the order of the groups.
\<close>

primrec match_here :: "node list \<Rightarrow> string \<Rightarrow> string list option" where
  "match_here [] s = Some []"
| "match_here (nd # rest) s =
     (case nd of
        Literal l \<Rightarrow>
          if take (length l) s = l then match_here rest (drop (length l) s) else None
      | OneOrMore c \<Rightarrow>
          first_some (\<lambda>n. match_here rest (drop n s)) (length (takeWhile (in_class c) s))
      | GroupOneOrMore c \<Rightarrow>
          first_some (\<lambda>n. map_option (\<lambda>gs. take n s # gs) (match_here rest (drop n s)))
            (length (takeWhile (in_class c) s)))"

text \<open>\<^verbatim>\<open>pattern.search\<close>: the match at the leftmost position that has one.\<close>

fun search :: "node list \<Rightarrow> string \<Rightarrow> string list option" where
  "search p [] = match_here p []"
| "search p (c # cs) =
     (case match_here p (c # cs) of Some gs \<Rightarrow> Some gs | None \<Rightarrow> search p cs)"

text \<open>\<^verbatim>\<open>match.group(i)\<close>, for \<open>i\<close> from 1.\<close>

definition group :: "string list \<Rightarrow> nat \<Rightarrow> string" where
  "group gs i = gs ! (i - 1)"

subsection \<open>The conversions\<close>

definition digit_value :: "char \<Rightarrow> nat" where
  "digit_value c = (of_char c :: nat) - 48"

definition nat_of_digits :: "string \<Rightarrow> nat" where
  "nat_of_digits s = foldl (\<lambda>a c. 10 * a + digit_value c) 0 s"

text \<open>
  \<^verbatim>\<open>int\<close> on a text of digits, which is all that the groups 1 and 2 can hold. (The
  other texts that \<^verbatim>\<open>int\<close> accepts have a sign, an underscore or a blank.) Integers
  are unbounded; the interpreter's configurable limit on the number of digits of a
  decimal text is left out.
\<close>

definition py_int :: "string \<Rightarrow> error + int" where
  "py_int s = (if s \<noteq> [] \<and> list_all is_digit s then Inr (int (nat_of_digits s))
               else Inl ValueError)"

text \<open>
  Binary64 rounding of the fraction \<open>a / b\<close> (\<open>b > 0\<close>): to the nearest double, a tie to
  the one with the even significand, and to infinity from \<open>2^1024 - 2^970\<close> on.
\<close>

fun bitlen :: "nat \<Rightarrow> nat" where
  "bitlen n = (if n = 0 then 0 else Suc (bitlen (n div 2)))"

declare bitlen.simps [simp del]

definition scale2 :: "nat \<Rightarrow> nat \<Rightarrow> int \<Rightarrow> nat \<times> nat" where
  "scale2 a b u = (if 0 \<le> u then (a, b * 2 ^ nat u) else (a * 2 ^ nat (- u), b))"

definition floor_log2 :: "nat \<Rightarrow> nat \<Rightarrow> int" where
  "floor_log2 a b =
     (let e0 = int (bitlen a) - int (bitlen b); (n, d) = scale2 a b e0
      in if d \<le> n then e0 else e0 - 1)"

definition round_half_even :: "nat \<Rightarrow> nat \<Rightarrow> nat" where
  "round_half_even n d =
     (let q = n div d; r = n mod d
      in if 2 * r < d then q else if d < 2 * r then q + 1 else if even q then q else q + 1)"

definition pow2 :: "int \<Rightarrow> rat" where
  "pow2 u = (if 0 \<le> u then 2 ^ nat u else 1 / 2 ^ nat (- u))"

definition round_double :: "nat \<Rightarrow> nat \<Rightarrow> pyfloat" where
  "round_double a b =
     (if a = 0 then Fin 0
      else let e = floor_log2 a b; u = max e (- 1022) - 52;
               (n, d) = scale2 a b u; m = round_half_even n d
           in if 2 ^ 1024 \<le> of_nat m * pow2 u then PosInf else Fin (of_nat m * pow2 u))"

text \<open>
  \<^verbatim>\<open>float\<close> on a text of digits and points, which is all that group 3 can hold: digits
  with at most one point among them, and at least one digit. (The other texts that
  \<^verbatim>\<open>float\<close> accepts have a sign, an exponent, a letter, an underscore or a blank.)
\<close>

definition py_float :: "string \<Rightarrow> error + pyfloat" where
  "py_float s =
     (let ip = takeWhile is_digit s
      in case dropWhile is_digit s of
           [] \<Rightarrow> if ip = [] then Inl ValueError else Inr (round_double (nat_of_digits ip) 1)
         | c # fp \<Rightarrow>
             if c = CHR ''.'' \<and> list_all is_digit fp \<and> ip @ fp \<noteq> []
             then Inr (round_double (nat_of_digits (ip @ fp)) (10 ^ length fp))
             else Inl ValueError)"

text \<open>
  \<^verbatim>\<open>min\<close> and \<^verbatim>\<open>max\<close> of a list: the first element is kept until a later one
  compares below (above) it; an empty list raises.
\<close>

fun py_min :: "('a \<Rightarrow> 'a \<Rightarrow> bool) \<Rightarrow> 'a list \<Rightarrow> error + 'a" where
  "py_min lt [] = Inl ValueError"
| "py_min lt (x # xs) = Inr (foldl (\<lambda>m y. if lt y m then y else m) x xs)"

fun py_max :: "('a \<Rightarrow> 'a \<Rightarrow> bool) \<Rightarrow> 'a list \<Rightarrow> error + 'a" where
  "py_max lt [] = Inl ValueError"
| "py_max lt (x # xs) = Inr (foldl (\<lambda>m y. if lt m y then y else m) x xs)"

text \<open>The order of floats: every comparison with not-a-number is false.\<close>

fun float_lt :: "pyfloat \<Rightarrow> pyfloat \<Rightarrow> bool" where
  "float_lt NaN y = False"
| "float_lt x NaN = False"
| "float_lt (Fin a) (Fin b) = (a < b)"
| "float_lt (Fin a) PosInf = True"
| "float_lt NegInf (Fin b) = True"
| "float_lt NegInf PosInf = True"
| "float_lt x y = False"

subsection \<open>Formatting\<close>

definition digit_char :: "nat \<Rightarrow> char" where
  "digit_char d = ''0123456789'' ! d"

fun show_nat :: "nat \<Rightarrow> string" where
  "show_nat n = (if n < 10 then [digit_char n] else show_nat (n div 10) @ [digit_char (n mod 10)])"

declare show_nat.simps [simp del]

definition show_int :: "int \<Rightarrow> string" where
  "show_int i = (if i < 0 then ''-'' @ show_nat (nat (- i)) else show_nat (nat i))"

text \<open>The nearest integer to a rational that is not negative, a tie to the even one.\<close>

definition round_rat :: "rat \<Rightarrow> nat" where
  "round_rat r =
     (let f = nat \<lfloor>r\<rfloor>; d = r - of_nat f
      in if d < 1 / 2 then f else if 1 / 2 < d then f + 1 else if even f then f else f + 1)"

definition pad4 :: "nat \<Rightarrow> string" where
  "pad4 n = take (4 - length (show_nat n)) ''0000'' @ show_nat n"

text \<open>The format \<^verbatim>\<open>.4f\<close>: four decimals, rounded from the exact value of the float.\<close>

definition format_4f :: "pyfloat \<Rightarrow> string" where
  "format_4f x =
     (case x of
        Fin q \<Rightarrow>
          (let n = round_rat (\<bar>q\<bar> * 10000)
           in (if q < 0 then ''-'' else []) @ show_nat (n div 10000) @ ''.'' @ pad4 (n mod 10000))
      | PosInf \<Rightarrow> ''inf''
      | NegInf \<Rightarrow> ''-inf''
      | NaN \<Rightarrow> ''nan'')"

subsection \<open>The outside world\<close>

text \<open>
  What the program does to the outside: a line printed, or a call of the plotting
  library, kept with its arguments.
\<close>

datatype plt_call =
    Figure "nat \<times> nat"
  | Plot "int list" "pyfloat list" string nat string nat
  | Xlabel string nat
  | Ylabel string nat
  | Title string nat
  | Grid bool rat
  | TightLayout
  | Savefig string nat
  | Show

datatype event = Print string | Plt plt_call

text \<open>
  The world outside the program. A path has no file, or a file that cannot be read as
  text (a directory, a file without permission, bytes that do not decode: the error that
  reading it raises), or a file with its decoded text. The path library writes a path in
  its own way. A call of the plotting library returns or raises (\<open>plt_error\<close> gives
  the error of the calls that raise), as when \<^verbatim>\<open>savefig\<close> cannot write its file.
\<close>

record env =
  files :: "string \<rightharpoonup> error + string"
  path_str :: "string \<Rightarrow> string"
  plt_error :: "plt_call \<rightharpoonup> error"

subsection \<open>The extractor\<close>

text \<open>
  Reading a text file line by line: the line ends \<^verbatim>\<open>\r\n\<close> and \<^verbatim>\<open>\r\<close> are read as
  \<^verbatim>\<open>\n\<close>, and every line keeps its \<^verbatim>\<open>\n\<close>.
\<close>

fun translate_newlines :: "string \<Rightarrow> string" where
  "translate_newlines [] = []"
| "translate_newlines [c] = [if c = CHR 0x0D then CHR 0x0A else c]"
| "translate_newlines (c # d # cs) =
     (if c = CHR 0x0D \<and> d = CHR 0x0A then CHR 0x0A # translate_newlines cs
      else if c = CHR 0x0D then CHR 0x0A # translate_newlines (d # cs)
      else c # translate_newlines (d # cs))"

fun split_lines :: "string \<Rightarrow> string list" where
  "split_lines [] = []"
| "split_lines (c # cs) =
     (if c = CHR 0x0A then [c] # split_lines cs
      else case split_lines cs of [] \<Rightarrow> [[c]] | l # ls \<Rightarrow> (c # l) # ls)"

definition readlines :: "string \<Rightarrow> string list" where
  "readlines text = split_lines (translate_newlines text)"

text \<open>
  The body of the loop, on the two lists built so far. Both conversions of the step
  numbers come before the conversion of the loss, and the two appends come last.
\<close>

fun body :: "string \<Rightarrow> int list \<times> pyfloat list \<Rightarrow> error + int list \<times> pyfloat list" where
  "body line (steps, val_losses) =
     (case search pattern line of
        None \<Rightarrow> Inr (steps, val_losses)
      | Some m \<Rightarrow>
          (case py_int (group m 1) of
             Inl e \<Rightarrow> Inl e
           | Inr step \<Rightarrow>
               (case py_int (group m 2) of
                  Inl e \<Rightarrow> Inl e
                | Inr total_steps \<Rightarrow>
                    (case py_float (group m 3) of
                       Inl e \<Rightarrow> Inl e
                     | Inr val_loss \<Rightarrow>
                         Inr (steps @ [step], val_losses @ [val_loss])))))"

fun for_lines :: "string list \<Rightarrow> int list \<times> pyfloat list \<Rightarrow> error + int list \<times> pyfloat list" where
  "for_lines [] st = Inr st"
| "for_lines (line # rest) st =
     (case body line st of Inl e \<Rightarrow> Inl e | Inr st' \<Rightarrow> for_lines rest st')"

definition parse_log_file :: "env \<Rightarrow> string \<Rightarrow> error + int list \<times> pyfloat list" where
  "parse_log_file ev log_file =
     (case files ev log_file of
        None \<Rightarrow> Inl FileNotFoundError
      | Some (Inl e) \<Rightarrow> Inl e
      | Some (Inr text) \<Rightarrow> for_lines (readlines text) ([], []))"

text \<open>
  Two predicates to state what the extractor returns: a line has a match, and a record
  (a step and a loss) is what the conversions give on the match of a line.
\<close>

definition matches :: "string \<Rightarrow> bool" where
  "matches l = (search pattern l \<noteq> None)"

definition record_from :: "string \<Rightarrow> int \<times> pyfloat \<Rightarrow> bool" where
  "record_from l r =
     (case search pattern l of
        None \<Rightarrow> False
      | Some m \<Rightarrow> py_int (group m 1) = Inr (fst r) \<and> py_float (group m 3) = Inr (snd r))"

subsection \<open>The renderer\<close>

text \<open>\<^verbatim>\<open>x or d\<close> on an optional text: \<^verbatim>\<open>None\<close> and the empty text are both false.\<close>

definition py_or :: "string option \<Rightarrow> string \<Rightarrow> string" where
  "py_or x d = (case x of None \<Rightarrow> d | Some s \<Rightarrow> if s = [] then d else s)"

text \<open>
  Whether a call of the plotting library raises: \<^verbatim>\<open>plot\<close> raises on two lists of
  different lengths, and any call raises when the library does.
\<close>

definition call_error :: "env \<Rightarrow> plt_call \<Rightarrow> error option" where
  "call_error ev c =
     (case c of
        Plot xs ys fmt lw mk ms \<Rightarrow>
          if length xs = length ys then plt_error ev c else Some ValueError
      | _ \<Rightarrow> plt_error ev c)"

text \<open>
  Statements run in order: a print is done, a call that returns is done, and a call that
  raises ends the run with its error, nothing after it being done.
\<close>

fun run_events :: "env \<Rightarrow> event list \<Rightarrow> event list \<times> error option" where
  "run_events ev [] = ([], None)"
| "run_events ev (Print s # rest) =
     (case run_events ev rest of (es, r) \<Rightarrow> (Print s # es, r))"
| "run_events ev (Plt c # rest) =
     (case call_error ev c of
        Some e \<Rightarrow> ([], Some e)
      | None \<Rightarrow> (case run_events ev rest of (es, r) \<Rightarrow> (Plt c # es, r)))"

text \<open>The statements of \<^verbatim>\<open>plot_loss\<close> after its check of the steps, in order.\<close>

definition plot_loss_calls ::
    "int list \<Rightarrow> pyfloat list \<Rightarrow> string option \<Rightarrow> string option \<Rightarrow> event list" where
  "plot_loss_calls steps val_losses output_file title =
     [Plt (Figure (10, 6)),
      Plt (Plot steps val_losses ''b-'' 2 ''o'' 4),
      Plt (Xlabel ''Training Step'' 12),
      Plt (Ylabel ''Validation Loss'' 12),
      Plt (Title (py_or title ''Validation Loss Over Training'') 14),
      Plt (Grid True (3 / 10)),
      Plt TightLayout]
     @ (case output_file of
          None \<Rightarrow> [Plt Show]
        | Some p \<Rightarrow>
            if p = [] then [Plt Show]
            else [Plt (Savefig p 150), Print (''Plot saved to '' @ p)])"

text \<open>The renderer: what it did, and the error it raised if a call raised.\<close>

definition plot_loss ::
    "env \<Rightarrow> int list \<Rightarrow> pyfloat list \<Rightarrow> string option \<Rightarrow> string option
       \<Rightarrow> event list \<times> error option" where
  "plot_loss ev steps val_losses output_file title =
     (if steps = [] then ([Print ''No loss data found in log file!''], None)
      else run_events ev (plot_loss_calls steps val_losses output_file title))"

subsection \<open>The orchestration\<close>

record args =
  log_file :: string
  output_opt :: "string option"
  title :: "string option"

text \<open>
  How a run ends: \<^verbatim>\<open>main\<close> returns, \<^verbatim>\<open>sys.exit\<close> is called, or an error is raised
  and nothing catches it.
\<close>

datatype outcome = Returned | SysExit nat | Uncaught error


text \<open>
  The three lines of summary statistics, with the lines printed before an error if
  \<^verbatim>\<open>min\<close> or \<^verbatim>\<open>max\<close> raises.
\<close>

definition summary :: "int list \<Rightarrow> pyfloat list \<Rightarrow> string list \<times> error option" where
  "summary steps val_losses =
     (let l1 = ''Found '' @ show_nat (length steps) @ '' validation loss measurements''
      in case py_min (<) steps of
           Inl e \<Rightarrow> ([l1], Some e)
         | Inr smin \<Rightarrow>
             (case py_max (<) steps of
                Inl e \<Rightarrow> ([l1], Some e)
              | Inr smax \<Rightarrow>
                  (let l2 = ''Steps: '' @ show_int smin @ '' to '' @ show_int smax
                   in case py_min float_lt val_losses of
                        Inl e \<Rightarrow> ([l1, l2], Some e)
                      | Inr lmin \<Rightarrow>
                          (case py_max float_lt val_losses of
                             Inl e \<Rightarrow> ([l1, l2], Some e)
                           | Inr lmax \<Rightarrow>
                               ([l1, l2, ''Loss range: '' @ format_4f lmin @ '' to '' @ format_4f lmax],
                                None)))))"

definition main :: "env \<Rightarrow> args \<Rightarrow> event list \<times> outcome" where
  "main ev a =
     (case files ev (log_file a) of
        None \<Rightarrow> ([Print (''Error: Log file not found: '' @ log_file a)], SysExit 1)
      | Some f \<Rightarrow>
          (let out = [Print (''Parsing log file: '' @ path_str ev (log_file a))]
           in case parse_log_file ev (log_file a) of
                Inl e \<Rightarrow> (out, Uncaught e)
              | Inr (steps, val_losses) \<Rightarrow>
                  if steps = []
                  then (out @ [Print ''No validation loss data found in the log file.'',
                               Print ''Make sure the training has run validation steps.''],
                        SysExit 1)
                  else (case summary steps val_losses of
                          (ls, Some e) \<Rightarrow> (out @ map Print ls, Uncaught e)
                        | (ls, None) \<Rightarrow>
                            (case plot_loss ev steps val_losses (output_opt a) (title a) of
                               (es, None) \<Rightarrow> (out @ map Print ls @ es, Returned)
                             | (es, Some e) \<Rightarrow> (out @ map Print ls @ es, Uncaught e)))))"

subsection \<open>Evaluation rules\<close>

lemma bitlen_0: "bitlen 0 = 0"
  by (simp add: bitlen.simps)

lemma bitlen_1: "bitlen 1 = 1"
  by (simp add: bitlen.simps)

lemma bitlen_One: "bitlen (numeral Num.One) = 1"
  by (simp add: bitlen.simps)

lemma bitlen_Bit0: "bitlen (numeral (Num.Bit0 n)) = bitlen (numeral n) + 1"
  by (subst bitlen.simps) simp

lemma bitlen_Bit1: "bitlen (numeral (Num.Bit1 n)) = bitlen (numeral n) + 1"
  by (subst bitlen.simps) simp

lemmas bitlen_eval = bitlen_0 bitlen_1 bitlen_One bitlen_Bit0 bitlen_Bit1

lemmas float_eval = py_float_def is_digit_def round_double_def floor_log2_def scale2_def
  nat_of_digits_def digit_value_def round_half_even_def pow2_def Let_def bitlen_eval

lemma round_rat_of_nat_div:
  assumes "0 < d"
  shows "round_rat (of_nat n / of_nat d) = round_half_even n d"
proof -
  have fl: "\<lfloor>(of_nat n :: rat) / of_nat d\<rfloor> = int (n div d)"
    by (simp add: floor_divide_of_nat_eq)
  have dpos: "(0::rat) < of_nat d" using assms by simp
  have "(of_nat n :: rat) = of_nat (n div d * d + n mod d)" by simp
  also have "\<dots> = of_nat (n div d) * of_nat d + of_nat (n mod d)"
    by (simp only: of_nat_add of_nat_mult)
  finally have "(of_nat n :: rat) / of_nat d = of_nat (n div d) + of_nat (n mod d) / of_nat d"
    using dpos by (simp add: field_simps)
  then have fr: "(of_nat n :: rat) / of_nat d - of_nat (n div d) = of_nat (n mod d) / of_nat d"
    by simp
  have lt: "((of_nat (n mod d) :: rat) / of_nat d < 1 / 2) = (2 * (n mod d) < d)"
  proof -
    have "((of_nat (n mod d) :: rat) / of_nat d < 1 / 2) = ((of_nat (2 * (n mod d)) :: rat) < of_nat d)"
      using dpos by (simp add: field_simps)
    then show ?thesis by (simp only: of_nat_less_iff)
  qed
  have gt: "(1 / 2 < (of_nat (n mod d) :: rat) / of_nat d) = (d < 2 * (n mod d))"
  proof -
    have "(1 / 2 < (of_nat (n mod d) :: rat) / of_nat d) = ((of_nat d :: rat) < of_nat (2 * (n mod d)))"
      using dpos by (simp add: field_simps)
    then show ?thesis by (simp only: of_nat_less_iff)
  qed
  show ?thesis
    unfolding round_rat_def round_half_even_def Let_def fl nat_int fr lt gt by simp
qed

lemma round_rat_numeral_div:
  "round_rat (numeral a / numeral b) = round_half_even (numeral a) (numeral b)"
  using round_rat_of_nat_div [of "numeral b" "numeral a"] by simp

lemma round_rat_numeral: "round_rat (numeral a) = numeral a"
  by (simp add: round_rat_def)

lemma round_rat_0: "round_rat 0 = 0"
  by (simp add: round_rat_def)

lemma round_rat_1: "round_rat 1 = 1"
  by (simp add: round_rat_def)

lemma show_nat_0: "show_nat 0 = ''0''"
  by (simp add: show_nat.simps digit_char_def)

lemma show_nat_1: "show_nat 1 = ''1''"
  by (simp add: show_nat.simps digit_char_def)

lemma show_nat_Suc_0: "show_nat (Suc 0) = ''1''"
  by (simp add: show_nat.simps digit_char_def)

lemma show_nat_small: "n < 10 \<Longrightarrow> show_nat n = [digit_char n]"
  by (simp add: show_nat.simps)

lemma show_nat_numeral:
  "show_nat (numeral k) =
     (if (numeral k :: nat) < 10 then [digit_char (numeral k)]
      else show_nat (numeral k div 10) @ [digit_char (numeral k mod 10)])"
  by (subst show_nat.simps) simp

lemmas format_eval = format_4f_def round_rat_numeral_div round_rat_numeral round_rat_0 round_rat_1
  round_half_even_def show_nat_0 show_nat_1 show_nat_Suc_0 show_nat_small
  show_nat_numeral digit_char_def
  pad4_def show_int_def Let_def

lemmas regex_eval = pattern_def is_digit_def is_space_def group_def

subsection \<open>Facts about the matcher\<close>

lemma first_some_SomeD:
  "first_some f n = Some r \<Longrightarrow> \<exists>k. 0 < k \<and> k \<le> n \<and> f k = Some r"
proof (induction n)
  case 0
  then show ?case by simp
next
  case (Suc n)
  show ?case
  proof (cases "f (Suc n)")
    case None
    with Suc.prems have "first_some f n = Some r" by simp
    with Suc.IH obtain k where "0 < k" "k \<le> n" "f k = Some r" by blast
    then show ?thesis by (intro exI [of _ k]) simp
  next
    case (Some x)
    with Suc.prems have "f (Suc n) = Some r" by simp
    then show ?thesis by (intro exI [of _ "Suc n"]) simp
  qed
qed

lemma take_within_takeWhile:
  assumes "k \<le> length (takeWhile P s)"
  shows "list_all P (take k s)"
proof -
  have "take k (takeWhile P s @ dropWhile P s) = take k (takeWhile P s)"
    unfolding take_append using assms by simp
  then have "take k s = take k (takeWhile P s)"
    by (simp only: takeWhile_dropWhile_id)
  then have "set (take k s) \<subseteq> set (takeWhile P s)"
    by (simp add: set_take_subset)
  then show ?thesis by (auto simp: list_all_iff dest: set_takeWhileD)
qed

lemma take_nonempty:
  assumes "0 < k" "k \<le> length (takeWhile P s)"
  shows "take k s \<noteq> []"
proof -
  have "length (takeWhile P s) \<le> length s" by (rule length_takeWhile_le)
  with assms show ?thesis by auto
qed

lemma match_here_Literal:
  assumes "match_here (Literal l # rest) s = Some gs"
  shows "take (length l) s = l \<and> match_here rest (drop (length l) s) = Some gs"
  using assms by (simp split: if_splits)

lemma match_here_OneOrMore:
  assumes "match_here (OneOrMore c # rest) s = Some gs"
  shows "\<exists>k. 0 < k \<and> k \<le> length (takeWhile (in_class c) s) \<and>
             match_here rest (drop k s) = Some gs"
proof -
  from assms have "first_some (\<lambda>n. match_here rest (drop n s))
      (length (takeWhile (in_class c) s)) = Some gs" by simp
  from first_some_SomeD [OF this] show ?thesis .
qed

lemma match_here_GroupOneOrMore:
  assumes "match_here (GroupOneOrMore c # rest) s = Some gs"
  shows "\<exists>k gs'. 0 < k \<and> k \<le> length (takeWhile (in_class c) s) \<and> gs = take k s # gs' \<and>
             match_here rest (drop k s) = Some gs'"
proof -
  from assms have "first_some
      (\<lambda>n. map_option (\<lambda>gs. take n s # gs) (match_here rest (drop n s)))
      (length (takeWhile (in_class c) s)) = Some gs" by simp
  from first_some_SomeD [OF this] obtain k where k: "0 < k"
      "k \<le> length (takeWhile (in_class c) s)"
    and m: "map_option (\<lambda>gs. take k s # gs) (match_here rest (drop k s)) = Some gs"
    by blast
  from m obtain gs' where "match_here rest (drop k s) = Some gs'" "gs = take k s # gs'"
    by (cases "match_here rest (drop k s)") auto
  with k show ?thesis by blast
qed

lemma match_here_pattern:
  assumes "match_here pattern s = Some gs"
  shows "\<exists>g1 g2 g3. gs = [g1, g2, g3] \<and> g1 \<noteq> [] \<and> list_all is_digit g1 \<and>
           g2 \<noteq> [] \<and> list_all is_digit g2 \<and>
           g3 \<noteq> [] \<and> list_all (in_class DigitOrDot) g3"
proof -
  note m0 = assms [unfolded pattern_def]
  from match_here_Literal [OF m0] have m1: "match_here
      [GroupOneOrMore Digit, Literal ''/'', GroupOneOrMore Digit, OneOrMore Space,
       Literal ''val_loss:'', GroupOneOrMore DigitOrDot] (drop (length ''step:'') s) = Some gs"
    by blast
  from match_here_GroupOneOrMore [OF m1] obtain k1 r1 s1 where
    k1: "0 < k1" "k1 \<le> length (takeWhile (in_class Digit) s1)"
    and gs: "gs = take k1 s1 # r1"
    and m2: "match_here [Literal ''/'', GroupOneOrMore Digit, OneOrMore Space,
       Literal ''val_loss:'', GroupOneOrMore DigitOrDot] (drop k1 s1) = Some r1"
    by blast
  from match_here_Literal [OF m2] have m3: "match_here
      [GroupOneOrMore Digit, OneOrMore Space, Literal ''val_loss:'', GroupOneOrMore DigitOrDot]
      (drop (length ''/'') (drop k1 s1)) = Some r1"
    by blast
  from match_here_GroupOneOrMore [OF m3] obtain k2 r2 s2 where
    k2: "0 < k2" "k2 \<le> length (takeWhile (in_class Digit) s2)"
    and r1: "r1 = take k2 s2 # r2"
    and m4: "match_here [OneOrMore Space, Literal ''val_loss:'', GroupOneOrMore DigitOrDot]
       (drop k2 s2) = Some r2"
    by blast
  from match_here_OneOrMore [OF m4] obtain s3 where
    m5: "match_here [Literal ''val_loss:'', GroupOneOrMore DigitOrDot] s3 = Some r2"
    by blast
  from match_here_Literal [OF m5] have m6: "match_here [GroupOneOrMore DigitOrDot]
      (drop (length ''val_loss:'') s3) = Some r2"
    by blast
  from match_here_GroupOneOrMore [OF m6] obtain k4 r3 s4 where
    k4: "0 < k4" "k4 \<le> length (takeWhile (in_class DigitOrDot) s4)"
    and r2: "r2 = take k4 s4 # r3"
    and m7: "match_here [] (drop k4 s4) = Some r3"
    by blast
  from m7 have r3: "r3 = []" by simp
  have d: "in_class Digit = is_digit" by (rule ext) simp
  have g1: "take k1 s1 \<noteq> []" "list_all is_digit (take k1 s1)"
    using take_within_takeWhile [OF k1(2)] take_nonempty [OF k1] by (simp_all add: d)
  have g2: "take k2 s2 \<noteq> []" "list_all is_digit (take k2 s2)"
    using take_within_takeWhile [OF k2(2)] take_nonempty [OF k2] by (simp_all add: d)
  have g3: "take k4 s4 \<noteq> []" "list_all (in_class DigitOrDot) (take k4 s4)"
    using take_within_takeWhile [OF k4(2)] take_nonempty [OF k4] by simp_all
  have "gs = [take k1 s1, take k2 s2, take k4 s4]"
    by (simp only: gs r1 r2 r3)
  with g1 g2 g3 show ?thesis by blast
qed

lemma search_leftmost:
  "search p s = Some gs \<Longrightarrow>
     \<exists>i\<le>length s. match_here p (drop i s) = Some gs \<and> (\<forall>j<i. match_here p (drop j s) = None)"
proof (induction s)
  case Nil
  then show ?case by simp
next
  case (Cons c cs)
  show ?case
  proof (cases "match_here p (c # cs)")
    case (Some x)
    with Cons.prems have "match_here p (c # cs) = Some gs" by simp
    then show ?thesis by (intro exI [of _ 0]) simp
  next
    case None
    with Cons.prems have "search p cs = Some gs" by simp
    with Cons.IH obtain i where i: "i \<le> length cs" "match_here p (drop i cs) = Some gs"
      "\<forall>j<i. match_here p (drop j cs) = None" by blast
    have "\<forall>j<Suc i. match_here p (drop j (c # cs)) = None"
    proof (intro allI impI)
      fix j assume "j < Suc i"
      then show "match_here p (drop j (c # cs)) = None"
        using None i(3) by (cases j) auto
    qed
    with i(1,2) show ?thesis by (intro exI [of _ "Suc i"]) simp
  qed
qed

lemma search_pattern_groups:
  assumes "search pattern s = Some gs"
  shows "\<exists>g1 g2 g3. gs = [g1, g2, g3] \<and> g1 \<noteq> [] \<and> list_all is_digit g1 \<and>
           g2 \<noteq> [] \<and> list_all is_digit g2 \<and>
           g3 \<noteq> [] \<and> list_all (in_class DigitOrDot) g3"
  using search_leftmost [OF assms] match_here_pattern by blast

subsection \<open>Facts about the conversions\<close>

lemma py_int_error: "py_int s = Inl e \<Longrightarrow> e = ValueError"
  by (simp add: py_int_def split: if_splits)

lemma py_int_digits: "s \<noteq> [] \<Longrightarrow> list_all is_digit s \<Longrightarrow> py_int s = Inr (int (nat_of_digits s))"
  by (simp add: py_int_def)

lemma py_float_error: "py_float s = Inl e \<Longrightarrow> e = ValueError"
  by (simp add: py_float_def Let_def split: list.splits if_splits)

lemma dot_not_digit: "\<not> is_digit CHR ''.''"
  by (simp add: is_digit_def)

lemma count_dots_digits: "list_all is_digit s \<Longrightarrow> count_list s CHR ''.'' = 0"
  by (induction s) (auto simp: dot_not_digit)

lemma py_float_one_dot:
  assumes "py_float s = Inr v"
  shows "count_list s CHR ''.'' \<le> 1"
proof -
  have s: "s = takeWhile is_digit s @ dropWhile is_digit s" by simp
  have ip: "count_list (takeWhile is_digit s) CHR ''.'' = 0"
    by (rule count_dots_digits) (auto simp: list_all_iff dest: set_takeWhileD)
  have "count_list (dropWhile is_digit s) CHR ''.'' \<le> 1"
  proof (cases "dropWhile is_digit s")
    case Nil
    show ?thesis unfolding Nil by simp
  next
    case (Cons c fp)
    with assms have "list_all is_digit fp"
      by (simp add: py_float_def Let_def split: if_splits)
    then show ?thesis using Cons by (simp add: count_dots_digits)
  qed
  then have "count_list (takeWhile is_digit s @ dropWhile is_digit s) CHR ''.'' \<le> 1"
    using ip by (simp only: count_list_append)
  then show ?thesis by (simp only: takeWhile_dropWhile_id)
qed

lemma round_double_cases:
  "round_double a b = PosInf \<or> (\<exists>q. round_double a b = Fin q \<and> 0 \<le> q \<and> q < 2 ^ 1024)"
proof -
  have p: "0 \<le> pow2 u" for u by (simp add: pow2_def)
  show ?thesis
    unfolding round_double_def Let_def
    by (auto simp: p split: prod.splits)
qed

lemma py_float_cases:
  assumes "py_float s = Inr v"
  shows "v = PosInf \<or> (\<exists>q. v = Fin q \<and> 0 \<le> q \<and> q < 2 ^ 1024)"
proof -
  from assms obtain a b where "v = round_double a b"
    by (auto simp: py_float_def Let_def split: list.splits if_splits)
  then show ?thesis using round_double_cases [of a b] by simp
qed

subsection \<open>Facts about the loop\<close>

lemma body_no_match: "search pattern l = None \<Longrightarrow> body l st = Inr st"
  by (cases st) simp

lemma body_match:
  assumes "search pattern l = Some m" "body l st = Inr st'"
  shows "\<exists>a b. py_int (group m 1) = Inr a \<and> py_float (group m 3) = Inr b \<and>
           st' = (fst st @ [a], snd st @ [b])"
  using assms by (cases st) (auto split: sum.splits)

lemma body_error: "body l st = Inl e \<Longrightarrow> e = ValueError"
  by (cases st) (auto split: option.splits sum.splits dest: py_int_error py_float_error)

lemma body_bad_float:
  assumes "search pattern l = Some m" "py_float (group m 3) = Inl e"
  shows "body l st = Inl ValueError"
proof (cases "body l st")
  case (Inl e')
  then show ?thesis using body_error by blast
next
  case (Inr st')
  from body_match [OF assms(1) Inr] assms(2) show ?thesis by auto
qed

lemma for_lines_error: "for_lines ls st = Inl e \<Longrightarrow> e = ValueError"
proof (induction ls arbitrary: st)
  case Nil
  then show ?case by simp
next
  case (Cons l ls)
  then show ?case by (auto split: sum.splits dest: body_error)
qed

lemma for_lines_bad_line:
  assumes "l \<in> set ls" "\<And>st. body l st = Inl ValueError"
  shows "for_lines ls st = Inl ValueError"
  using assms(1)
proof (induction ls arbitrary: st)
  case Nil
  then show ?case by simp
next
  case (Cons x xs)
  show ?case
  proof (cases "body x st")
    case (Inl e)
    then show ?thesis using body_error by fastforce
  next
    case (Inr st')
    have "x \<noteq> l" using Inr assms(2) [of st] by auto
    with Cons.prems have "l \<in> set xs" by simp
    then show ?thesis using Inr Cons.IH by simp
  qed
qed

lemma for_lines_skip:
  assumes "search pattern l = None"
  shows "for_lines (xs @ l # ys) st = for_lines (xs @ ys) st"
proof (induction xs arbitrary: st)
  case Nil
  show ?case using assms by (simp add: body_no_match)
next
  case (Cons x xs)
  then show ?case by (simp split: sum.splits)
qed

lemma for_lines_records:
  "for_lines ls st = Inr st' \<Longrightarrow>
     \<exists>rs. st' = (fst st @ map fst rs, snd st @ map snd rs) \<and>
          list_all2 record_from (filter matches ls) rs"
proof (induction ls arbitrary: st)
  case Nil
  then show ?case by (intro exI [of _ "[]"]) auto
next
  case (Cons l ls)
  from Cons.prems obtain st1 where b: "body l st = Inr st1" and f: "for_lines ls st1 = Inr st'"
    by (auto split: sum.splits)
  from Cons.IH [OF f] obtain rs where rs: "st' = (fst st1 @ map fst rs, snd st1 @ map snd rs)"
    "list_all2 record_from (filter matches ls) rs" by blast
  show ?case
  proof (cases "search pattern l")
    case None
    with b have "st1 = st" by (simp add: body_no_match)
    moreover have "\<not> matches l" using None by (simp add: matches_def)
    ultimately show ?thesis using rs by (intro exI [of _ rs]) simp
  next
    case (Some m)
    from body_match [OF Some b] obtain a c where ac: "py_int (group m 1) = Inr a"
      "py_float (group m 3) = Inr c" "st1 = (fst st @ [a], snd st @ [c])" by blast
    have "record_from l (a, c)" using Some ac by (simp add: record_from_def)
    moreover have "matches l" using Some by (simp add: matches_def)
    ultimately show ?thesis using rs ac(3)
      by (intro exI [of _ "(a, c) # rs"]) simp
  qed
qed

lemma for_lines_length:
  assumes "for_lines ls st = Inr st'" "length (fst st) = length (snd st)"
  shows "length (fst st') = length (snd st')"
  using for_lines_records [OF assms(1)] assms(2) by auto

subsection \<open>Facts about the extractor and the orchestration\<close>

lemmas loop_eval = parse_log_file_def readlines_def py_int_def regex_eval float_eval

lemma for_lines_no_match:
  "list_all (\<lambda>l. search pattern l = None) ls \<Longrightarrow> for_lines ls st = Inr st"
  by (induction ls arbitrary: st) (simp_all add: body_no_match)


lemma record_from_nonneg:
  assumes "record_from l r"
  shows "0 \<le> fst r \<and> (snd r = PosInf \<or> (\<exists>q. snd r = Fin q \<and> 0 \<le> q \<and> q < 2 ^ 1024))"
proof -
  from assms obtain m where i: "py_int (group m 1) = Inr (fst r)"
    and f: "py_float (group m 3) = Inr (snd r)"
    by (auto simp: record_from_def split: option.splits)
  from i have "0 \<le> fst r" by (auto simp: py_int_def split: if_splits)
  with py_float_cases [OF f] show ?thesis by simp
qed

lemma list_all2_rightD:
  assumes "list_all2 P xs ys" "y \<in> set ys"
  shows "\<exists>x \<in> set xs. P x y"
proof -
  from assms(2) obtain i where "i < length ys" "ys ! i = y" by (auto simp: in_set_conv_nth)
  with assms(1) have "P (xs ! i) y" "i < length xs"
    by (auto simp: list_all2_conv_all_nth)
  then show ?thesis by auto
qed

lemma parse_log_file_records:
  assumes "files ev p = Some (Inr content)" "parse_log_file ev p = Inr (steps, losses)"
  shows "list_all2 record_from (filter matches (readlines content)) (zip steps losses)
         \<and> length steps = length losses"
proof -
  from assms have "for_lines (readlines content) ([], []) = Inr (steps, losses)"
    by (simp add: parse_log_file_def)
  from for_lines_records [OF this] obtain rs where
    rs: "steps = map fst rs" "losses = map snd rs"
      "list_all2 record_from (filter matches (readlines content)) rs"
    by auto
  have "zip steps losses = rs" unfolding rs(1,2) by (simp add: zip_map_fst_snd)
  with rs show ?thesis by simp
qed


lemma run_events_returned:
  "run_events ev script = (es, None) \<Longrightarrow> es = script"
proof (induction script arbitrary: es)
  case Nil
  then show ?case by simp
next
  case (Cons x xs)
  show ?case
  proof (cases x)
    case (Print s)
    with Cons.prems obtain es' where "run_events ev xs = (es', None)" "es = Print s # es'"
      by (auto split: prod.splits)
    with Cons.IH Print show ?thesis by simp
  next
    case (Plt c)
    with Cons.prems obtain es' where "run_events ev xs = (es', None)" "es = Plt c # es'"
      by (auto split: option.splits prod.splits)
    with Cons.IH Plt show ?thesis by simp
  qed
qed









lemmas summary_eval = summary_def format_eval


subsection \<open>When the rounding overflows\<close>

lemma bitlen_pos: "0 < n \<Longrightarrow> bitlen n = Suc (bitlen (n div 2))"
  by (subst bitlen.simps) simp

lemma bitlen_lower: "0 < n \<Longrightarrow> 2 ^ (bitlen n - 1) \<le> n"
proof (induction n rule: less_induct)
  case (less n)
  show ?case
  proof (cases "n div 2 = 0")
    case True
    then have "bitlen n = 1" using less.prems by (simp add: bitlen_pos bitlen_0)
    with less.prems show ?thesis by simp
  next
    case False
    then have h: "0 < n div 2" "n div 2 < n" using less.prems by simp_all
    from less.IH [OF h(2) h(1)] have ih: "2 ^ (bitlen (n div 2) - 1) \<le> n div 2" .
    have b: "bitlen (n div 2) = Suc (bitlen (n div 2) - 1)"
      using h(1) by (simp add: bitlen_pos)
    have "bitlen n - 1 = bitlen (n div 2)" using less.prems by (simp add: bitlen_pos)
    then have "(2::nat) ^ (bitlen n - 1) = 2 * 2 ^ (bitlen (n div 2) - 1)"
      by (subst (asm) b) simp
    also have "\<dots> \<le> 2 * (n div 2)" using ih by simp
    also have "\<dots> \<le> n" by simp
    finally show ?thesis .
  qed
qed

lemma bitlen_upper: "n < 2 ^ bitlen n"
proof (induction n rule: less_induct)
  case (less n)
  show ?case
  proof (cases "n = 0")
    case True
    then show ?thesis by (simp add: bitlen_0)
  next
    case False
    then have h: "n div 2 < n" by simp
    from less.IH [OF h] have "n div 2 < 2 ^ bitlen (n div 2)" .
    then have "n < 2 * 2 ^ bitlen (n div 2)" by linarith
    then show ?thesis using False by (simp add: bitlen_pos)
  qed
qed

lemma pow2_powi: "pow2 u = 2 powi u"
  by (simp add: pow2_def power_int_def field_simps)

lemma pow2_pos: "0 < pow2 u"
  by (simp add: pow2_powi)

lemma pow2_add: "pow2 (x + y) = pow2 x * pow2 y"
  by (simp add: pow2_powi power_int_add)

lemma pow2_of_nat: "pow2 (int k) = 2 ^ k"
  by (simp add: pow2_def)

lemma scale2_value:
  assumes "scale2 a b u = (n, d)" "0 < b"
  shows "0 < d \<and> (of_nat n :: rat) / of_nat d = of_nat a / of_nat b / pow2 u"
proof (cases "0 \<le> u")
  case True
  with assms have "n = a" "d = b * 2 ^ nat u" by (simp_all add: scale2_def)
  with True assms(2) show ?thesis by (simp add: pow2_def)
next
  case False
  with assms have "n = a * 2 ^ nat (- u)" "d = b" by (simp_all add: scale2_def)
  with False assms(2) show ?thesis by (simp add: pow2_def)
qed

lemma floor_log2_lower:
  assumes "0 < a" "0 < b"
  shows "pow2 (floor_log2 a b) \<le> of_nat a / of_nat b"
proof -
  define e0 where "e0 = int (bitlen a) - int (bitlen b)"
  obtain n d where nd: "scale2 a b e0 = (n, d)" by (cases "scale2 a b e0")
  from scale2_value [OF nd assms(2)] have d: "0 < d"
    and v: "(of_nat n :: rat) / of_nat d = of_nat a / of_nat b / pow2 e0" by simp_all
  have bpos: "(0::rat) < of_nat b" using assms(2) by simp
  show ?thesis
  proof (cases "d \<le> n")
    case True
    then have "(1::rat) \<le> of_nat n / of_nat d" using d by (simp add: field_simps)
    then have "1 \<le> (of_nat a :: rat) / of_nat b / pow2 e0" by (simp only: v)
    then have "pow2 e0 \<le> of_nat a / of_nat b"
      using pow2_pos [of e0] bpos by (simp add: field_simps)
    moreover have "floor_log2 a b = e0"
      using True nd by (simp add: floor_log2_def Let_def e0_def)
    ultimately show ?thesis by simp
  next
    case False
    then have f: "floor_log2 a b = e0 - 1"
      using nd by (simp add: floor_log2_def Let_def e0_def)
    have la: "2 ^ (bitlen a - 1) \<le> a" by (rule bitlen_lower [OF assms(1)])
    have lb: "b < 2 ^ bitlen b" by (rule bitlen_upper)
    have apos: "0 < bitlen a" using assms(1) by (simp add: bitlen_pos)
    have "int (bitlen a - 1) = (e0 - 1) + int (bitlen b)" using apos by (simp add: e0_def)
    then have "pow2 (int (bitlen a - 1)) = pow2 (e0 - 1) * pow2 (int (bitlen b))"
      by (simp only: pow2_add)
    then have eq: "(2::rat) ^ (bitlen a - 1) = pow2 (e0 - 1) * 2 ^ bitlen b"
      by (simp only: pow2_of_nat)
    have "pow2 (e0 - 1) * of_nat b \<le> pow2 (e0 - 1) * 2 ^ bitlen b"
    proof -
      have "(of_nat b :: rat) \<le> of_nat (2 ^ bitlen b)" using lb by (simp only: of_nat_le_iff)
      then have "(of_nat b :: rat) \<le> 2 ^ bitlen b" by simp
      then show ?thesis using pow2_pos [of "e0 - 1"] by simp
    qed
    also have "\<dots> = 2 ^ (bitlen a - 1)" by (simp only: eq)
    also have "\<dots> \<le> of_nat a"
    proof -
      have "(of_nat (2 ^ (bitlen a - 1)) :: rat) \<le> of_nat a" using la by (simp only: of_nat_le_iff)
      then show ?thesis by simp
    qed
    finally have "pow2 (e0 - 1) \<le> of_nat a / of_nat b" using bpos by (simp add: field_simps)
    with f show ?thesis by simp
  qed
qed

lemma round_half_even_upper:
  assumes "0 < d"
  shows "(of_nat (round_half_even n d) :: rat) \<le> of_nat n / of_nat d + 1 / 2"
proof -
  have dpos: "(0::rat) < of_nat d" using assms by simp
  have q: "(of_nat (n div d) :: rat) \<le> of_nat n / of_nat d"
  proof -
    have "n div d * d \<le> n" by simp
    then have "(of_nat (n div d * d) :: rat) \<le> of_nat n" by (simp only: of_nat_le_iff)
    then have "(of_nat (n div d) :: rat) * of_nat d \<le> of_nat n" by simp
    then show ?thesis using dpos by (simp add: field_simps)
  qed
  have up: "(of_nat (n div d + 1) :: rat) \<le> of_nat n / of_nat d + 1 / 2" if "d \<le> 2 * (n mod d)"
  proof -
    have e: "n = n div d * d + n mod d" by simp
    have "2 * ((n div d + 1) * d) = 2 * (n div d * d) + 2 * d" by (simp add: algebra_simps)
    also have "\<dots> \<le> 2 * (n div d * d) + (d + 2 * (n mod d))" using that by simp
    also have "\<dots> = 2 * n + d" using e by linarith
    finally have "(of_nat (2 * ((n div d + 1) * d)) :: rat) \<le> of_nat (2 * n + d)"
      by (simp only: of_nat_le_iff)
    moreover have "(of_nat (2 * ((n div d + 1) * d)) :: rat)
        = 2 * (of_nat (n div d + 1) * of_nat d)" by (simp only: of_nat_mult of_nat_numeral)
    moreover have "(of_nat (2 * n + d) :: rat) = 2 * of_nat n + of_nat d"
      by (simp only: of_nat_add of_nat_mult of_nat_numeral)
    ultimately have "2 * (of_nat (n div d + 1) * of_nat d) \<le> 2 * (of_nat n :: rat) + of_nat d"
      by (simp only:)
    then show ?thesis using dpos by (simp add: field_simps)
  qed
  show ?thesis
    unfolding round_half_even_def Let_def using q up by (auto simp: not_less)
qed

lemma round_double_PosInf:
  assumes "round_double a b = PosInf" "0 < b"
  shows "2 ^ 1023 \<le> (of_nat a :: rat) / of_nat b"
proof -
  from assms(1) have a: "0 < a" by (cases "a = 0") (simp_all add: round_double_def)
  define e where "e = floor_log2 a b"
  define u where "u = max e (- 1022) - 52"
  obtain n d where nd: "scale2 a b u = (n, d)" by (cases "scale2 a b u")
  define m where "m = round_half_even n d"
  define x where "x = (of_nat a :: rat) / of_nat b"
  define P where "P = (2::rat) ^ 1023"
  have P: "(2::rat) ^ 1024 = 2 * P" "1 \<le> P" by (simp_all add: P_def)
  from assms(1) a nd have big: "2 ^ 1024 \<le> of_nat m * pow2 u"
    by (simp add: round_double_def Let_def e_def [symmetric] u_def [symmetric] m_def
        split: if_splits)
  from scale2_value [OF nd assms(2)] have d: "0 < d"
    and v: "(of_nat n :: rat) / of_nat d = x / pow2 u" by (simp_all add: x_def)
  from round_half_even_upper [OF d, of n] have "of_nat m \<le> x / pow2 u + 1 / 2"
    by (simp only: m_def v)
  then have "of_nat m * pow2 u \<le> (x / pow2 u + 1 / 2) * pow2 u"
    using pow2_pos [of u] by (simp only: mult_le_cancel_right_pos)
  also have "\<dots> = x + pow2 u / 2"
    using pow2_pos [of u] by (simp add: field_simps)
  finally have ub: "2 * P \<le> x + pow2 u / 2" using big by (simp only: P)
  have small: "pow2 (- k) \<le> 1" if "0 \<le> k" for k
    using that by (simp add: pow2_powi power_int_minus inverse_le_1_iff one_le_power_int)
  have "P \<le> x"
  proof (cases "- 1022 \<le> e")
    case True
    then have "u = e + (- 52)" by (simp add: u_def)
    then have "pow2 u = pow2 e * pow2 (- 52)" by (simp only: pow2_add)
    also have "\<dots> \<le> pow2 e * 1"
      using small [of 52] pow2_pos [of e] by (simp only: mult_le_cancel_left_pos)
    also have "\<dots> \<le> x"
      using floor_log2_lower [OF a assms(2)] by (simp add: e_def x_def)
    finally have "pow2 u \<le> x" .
    with ub pow2_pos [of u] show ?thesis by linarith
  next
    case False
    then have "u = - 1074" by (simp add: u_def)
    with small [of 1074] have "pow2 u \<le> 1" by simp
    with ub P(2) show ?thesis by linarith
  qed
  then show ?thesis by (simp only: P_def x_def)
qed

lemma nat_of_digits_snoc: "nat_of_digits (s @ [c]) = 10 * nat_of_digits s + digit_value c"
  by (simp add: nat_of_digits_def)

lemma nat_of_digits_lt:
  "list_all is_digit s \<Longrightarrow> nat_of_digits s < 10 ^ length s"
proof (induction s rule: rev_induct)
  case Nil
  then show ?case by (simp add: nat_of_digits_def)
next
  case (snoc c s)
  then have ih: "nat_of_digits s < 10 ^ length s" and "is_digit c" by simp_all
  then have "digit_value c \<le> 9" by (auto simp: is_digit_def digit_value_def)
  with ih have "10 * nat_of_digits s + digit_value c < 10 * 10 ^ length s" by linarith
  then show ?case by (simp add: nat_of_digits_snoc)
qed

lemma py_float_PosInf_length:
  assumes "py_float s = Inr PosInf"
  shows "308 \<le> length s"
proof -
  define ip where "ip = takeWhile is_digit s"
  have ipd: "list_all is_digit ip"
    by (auto simp: ip_def list_all_iff dest: set_takeWhileD)
  have len: "length ip \<le> length s" unfolding ip_def by (rule length_takeWhile_le)
  have "\<exists>fp. list_all is_digit fp
          \<and> round_double (nat_of_digits (ip @ fp)) (10 ^ length fp) = PosInf"
  proof (cases "dropWhile is_digit s")
    case Nil
    with assms have "round_double (nat_of_digits ip) 1 = PosInf"
      by (simp add: py_float_def Let_def ip_def split: if_splits)
    then show ?thesis by (intro exI [of _ "[]"]) simp
  next
    case (Cons c fp)
    with assms have "list_all is_digit fp"
      "round_double (nat_of_digits (ip @ fp)) (10 ^ length fp) = PosInf"
      by (simp_all add: py_float_def Let_def ip_def split: if_splits)
    then show ?thesis by blast
  qed
  then obtain fp where fp: "list_all is_digit fp"
    and r: "round_double (nat_of_digits (ip @ fp)) (10 ^ length fp) = PosInf" by blast
  have "nat_of_digits (ip @ fp) < 10 ^ length (ip @ fp)"
    using ipd fp by (intro nat_of_digits_lt) simp
  then have "(of_nat (nat_of_digits (ip @ fp)) :: rat) < of_nat (10 ^ length (ip @ fp))"
    by (simp only: of_nat_less_iff)
  then have "(of_nat (nat_of_digits (ip @ fp)) :: rat) < 10 ^ length ip * 10 ^ length fp"
    by (simp add: power_add)
  then have lt: "(of_nat (nat_of_digits (ip @ fp)) :: rat) / of_nat (10 ^ length fp)
      < 10 ^ length ip"
    by (simp add: field_simps)
  from round_double_PosInf [OF r] have
    "2 ^ 1023 \<le> (of_nat (nat_of_digits (ip @ fp)) :: rat) / of_nat (10 ^ length fp)" by simp
  with lt have big: "(2::rat) ^ 1023 < 10 ^ length ip" by linarith
  have "308 \<le> length ip"
  proof (rule ccontr)
    assume "\<not> 308 \<le> length ip"
    then have "length ip \<le> 307" by simp
    then have "(10::rat) ^ length ip \<le> 10 ^ 307" by (intro power_increasing) simp_all
    also have "\<dots> < 2 ^ 1023" by simp
    finally show False using big by simp
  qed
  with len show ?thesis by simp
qed

lemma match_here_group_length:
  "match_here p s = Some gs \<Longrightarrow> g \<in> set gs \<Longrightarrow> length g \<le> length s"
proof (induction p arbitrary: s gs)
  case Nil
  then show ?case by simp
next
  case (Cons nd rest)
  show ?case
  proof (cases nd)
    case (Literal l)
    with Cons.prems(1) have "match_here rest (drop (length l) s) = Some gs"
      using match_here_Literal by blast
    from Cons.IH [OF this Cons.prems(2)] show ?thesis by simp
  next
    case (OneOrMore c)
    with Cons.prems(1) obtain k where "match_here rest (drop k s) = Some gs"
      using match_here_OneOrMore by blast
    from Cons.IH [OF this Cons.prems(2)] show ?thesis by simp
  next
    case (GroupOneOrMore c)
    with Cons.prems(1) obtain k gs' where k: "gs = take k s # gs'"
      "match_here rest (drop k s) = Some gs'"
      using match_here_GroupOneOrMore by blast
    show ?thesis
    proof (cases "g = take k s")
      case True
      then show ?thesis by simp
    next
      case False
      with k(1) Cons.prems(2) have "g \<in> set gs'" by simp
      from Cons.IH [OF k(2) this] show ?thesis by simp
    qed
  qed
qed

lemma search_group_length:
  assumes "search p s = Some gs" "g \<in> set gs"
  shows "length g \<le> length s"
proof -
  from search_leftmost [OF assms(1)] obtain i where "match_here p (drop i s) = Some gs"
    by blast
  from match_here_group_length [OF this assms(2)] show ?thesis by simp
qed

lemma record_from_finite:
  assumes "record_from l r" "length l < 308"
  shows "snd r \<noteq> PosInf"
proof
  assume inf: "snd r = PosInf"
  from assms(1) obtain m where m: "search pattern l = Some m"
    and f: "py_float (group m 3) = Inr (snd r)"
    by (auto simp: record_from_def split: option.splits)
  from search_pattern_groups [OF m] obtain g1 g2 g3 where "m = [g1, g2, g3]" by blast
  then have "group m 3 \<in> set m" by (simp add: group_def)
  from search_group_length [OF m this] have "length (group m 3) \<le> length l" .
  moreover from f inf have "308 \<le> length (group m 3)"
    using py_float_PosInf_length by simp
  ultimately show False using assms(2) by simp
qed

section \<open>The claims\<close>

text \<open>
  C1, as the specification states it: the loss token that the pattern accepts has digits
  and at most one decimal point. The pattern's class \<^verbatim>\<open>[\d.]+\<close> accepts any run of
  digits and points: on \<^verbatim>\<open>step:1/2 val_loss:1.2.3\<close> the third group is
  \<^verbatim>\<open>1.2.3\<close>, with two points.
\<close>

theorem val_loss_token_two_points_counterexample:
  "search pattern ''step:1/2 val_loss:1.2.3'' = Some [''1'', ''2'', ''1.2.3'']
   \<and> group [''1'', ''2'', ''1.2.3''] 3 = ''1.2.3''
   \<and> count_list ''1.2.3'' CHR ''.'' = 2"
  by (simp add: regex_eval)

text \<open>
  C1, amended: the loss token that the pattern accepts is a non-empty run of digits and
  decimal points, with any number of points; it has no exponent marker and no sign. A
  record is made from the token only if it has at most one point.
\<close>

theorem val_loss_token_chars:
  assumes "search pattern line = Some m"
  shows "group m 3 \<noteq> [] \<and> list_all (\<lambda>c. is_digit c \<or> c = CHR ''.'') (group m 3)
         \<and> CHR ''e'' \<notin> set (group m 3) \<and> CHR ''E'' \<notin> set (group m 3)
         \<and> CHR ''+'' \<notin> set (group m 3) \<and> CHR ''-'' \<notin> set (group m 3)
         \<and> (body line st = Inr st' \<longrightarrow> count_list (group m 3) CHR ''.'' \<le> 1)"
proof -
  from search_pattern_groups [OF assms] obtain g1 g2 g3 where
    m: "m = [g1, g2, g3]" and g3: "g3 \<noteq> []" "list_all (in_class DigitOrDot) g3"
    by blast
  have g: "group m 3 = g3" by (simp add: m group_def)
  have cls: "in_class DigitOrDot = (\<lambda>c. is_digit c \<or> c = CHR ''.'')"
    by (rule ext) simp
  have all: "list_all (\<lambda>c. is_digit c \<or> c = CHR ''.'') g3"
    using g3(2) by (simp only: cls)
  have no: "c \<notin> set g3" if "\<not> is_digit c" "c \<noteq> CHR ''.''" for c
    using all that by (auto simp: list_all_iff)
  have dots: "count_list g3 CHR ''.'' \<le> 1" if "body line st = Inr st'"
    using body_match [OF assms that] py_float_one_dot by (auto simp: g)
  show ?thesis
    unfolding g using g3(1) all dots
      no [of "CHR ''e''"] no [of "CHR ''E''"] no [of "CHR ''+''"] no [of "CHR ''-''"]
    by (simp add: is_digit_def)
qed

theorem val_loss_token_chars_witness:
  "search pattern ''xx step:100/1000 val_loss:2.3456 lr:0.001'' = Some [''100'', ''1000'', ''2.3456'']
   \<and> group [''100'', ''1000'', ''2.3456''] 3 = ''2.3456''
   \<and> list_all (\<lambda>c. is_digit c \<or> c = CHR ''.'') ''2.3456''
   \<and> CHR ''e'' \<notin> set ''2.3456''
   \<and> body ''xx step:100/1000 val_loss:2.3456 lr:0.001'' ([], []) = Inr ([100], [Fin (2640910821490059 / 2 ^ 50)])
   \<and> count_list ''2.3456'' CHR ''.'' \<le> 1"
proof -
  have h: "search pattern ''xx step:100/1000 val_loss:2.3456 lr:0.001''
             = Some [''100'', ''1000'', ''2.3456'']"
    by (simp add: regex_eval)
  have b: "body ''xx step:100/1000 val_loss:2.3456 lr:0.001'' ([], [])
             = Inr ([100], [Fin (2640910821490059 / 2 ^ 50)])"
    by (simp add: loop_eval)
  have g: "group [''100'', ''1000'', ''2.3456''] 3 = ''2.3456''"
    by (simp add: group_def)
  from val_loss_token_chars [OF h, of "([], [])" "([100], [Fin (2640910821490059 / 2 ^ 50)])"]
  show ?thesis using h b g by simp
qed

text \<open>
  C2: when a line of the file matches the pattern and \<^verbatim>\<open>float\<close> rejects its third
  group, the iteration on that line raises before either list is appended to, the
  extractor ends in the error, without any lists, and so does the program.
\<close>

theorem malformed_loss_fails:
  assumes "files ev (log_file a) = Some (Inr content)" "l \<in> set (readlines content)"
    "search pattern l = Some m" "py_float (group m 3) = Inl e"
  shows "body l st = Inl ValueError
         \<and> parse_log_file ev (log_file a) = Inl ValueError
         \<and> main ev a = ([Print (''Parsing log file: '' @ path_str ev (log_file a))],
                        Uncaught ValueError)"
proof -
  have b: "body l s = Inl ValueError" for s
    by (rule body_bad_float [OF assms(3,4)])
  have p: "parse_log_file ev (log_file a) = Inl ValueError"
    using for_lines_bad_line [OF assms(2) b] assms(1) by (simp add: parse_log_file_def)
  show ?thesis using b p assms(1) by (simp add: main_def)
qed

theorem malformed_loss_fails_witness:
  "files \<lparr>files = [''run.txt'' \<mapsto> Inr (''step:1/5 val_loss:0.5'' @ [CHR 0x0A]
                  @ ''step:2/5 val_loss:...'' @ [CHR 0x0A] @ ''step:3/5 val_loss:0.25'')],
      path_str = (\<lambda>p. p), plt_error = Map.empty\<rparr> ''run.txt''
     = Some (Inr (''step:1/5 val_loss:0.5'' @ [CHR 0x0A]
                  @ ''step:2/5 val_loss:...'' @ [CHR 0x0A] @ ''step:3/5 val_loss:0.25''))
   \<and> ''step:2/5 val_loss:...'' @ [CHR 0x0A] \<in> set (readlines (''step:1/5 val_loss:0.5'' @ [CHR 0x0A]
                  @ ''step:2/5 val_loss:...'' @ [CHR 0x0A] @ ''step:3/5 val_loss:0.25''))
   \<and> search pattern (''step:2/5 val_loss:...'' @ [CHR 0x0A]) = Some [''2'', ''5'', ''...'']
   \<and> py_float (group [''2'', ''5'', ''...''] 3) = Inl ValueError
   \<and> body (''step:2/5 val_loss:...'' @ [CHR 0x0A]) ([1], [Fin (1 / 2)]) = Inl ValueError
   \<and> parse_log_file \<lparr>files = [''run.txt'' \<mapsto> Inr (''step:1/5 val_loss:0.5'' @ [CHR 0x0A]
                  @ ''step:2/5 val_loss:...'' @ [CHR 0x0A] @ ''step:3/5 val_loss:0.25'')],
      path_str = (\<lambda>p. p), plt_error = Map.empty\<rparr> ''run.txt'' = Inl ValueError
   \<and> main \<lparr>files = [''run.txt'' \<mapsto> Inr (''step:1/5 val_loss:0.5'' @ [CHR 0x0A]
                  @ ''step:2/5 val_loss:...'' @ [CHR 0x0A] @ ''step:3/5 val_loss:0.25'')],
      path_str = (\<lambda>p. p), plt_error = Map.empty\<rparr> \<lparr>log_file = ''run.txt'', output_opt = None, title = None\<rparr>
     = ([Print ''Parsing log file: run.txt''], Uncaught ValueError)"
proof -
  let ?c = "''step:1/5 val_loss:0.5'' @ [CHR 0x0A]
                  @ ''step:2/5 val_loss:...'' @ [CHR 0x0A] @ ''step:3/5 val_loss:0.25''"
  let ?ev = "\<lparr>files = [''run.txt'' \<mapsto> Inr ?c], path_str = (\<lambda>p. p), plt_error = Map.empty\<rparr>"
  let ?a = "\<lparr>log_file = ''run.txt'', output_opt = None, title = None\<rparr>"
  have h1: "files ?ev (log_file ?a) = Some (Inr ?c)" by simp
  have h2: "''step:2/5 val_loss:...'' @ [CHR 0x0A] \<in> set (readlines ?c)"
    by (simp add: readlines_def)
  have h3: "search pattern (''step:2/5 val_loss:...'' @ [CHR 0x0A]) = Some [''2'', ''5'', ''...'']"
    by (simp add: regex_eval)
  have h4: "py_float (group [''2'', ''5'', ''...''] 3) = Inl ValueError"
    by (simp add: regex_eval float_eval)
  from malformed_loss_fails [OF h1 h2 h3 h4, of "([1], [Fin (1 / 2)])"]
  show ?thesis using h1 h2 h3 h4 by simp
qed

text \<open>
  C3: the two lists that the extractor returns have the same length, so that both are
  empty or neither is.
\<close>

theorem parse_log_file_aligned:
  assumes "parse_log_file ev p = Inr (steps, losses)"
  shows "length steps = length losses \<and> (steps = [] \<longleftrightarrow> losses = [])"
proof -
  from assms obtain content where "for_lines (readlines content) ([], []) = Inr (steps, losses)"
    by (auto simp: parse_log_file_def split: option.splits sum.splits)
  from for_lines_length [OF this] have "length steps = length losses" by simp
  then show ?thesis by auto
qed

theorem parse_log_file_aligned_witness:
  "parse_log_file
     \<lparr>files = [''run.txt'' \<mapsto> Inr (''step:10/30 val_loss:2.5'' @ [CHR 0x0A] @ ''warmup done''
                  @ [CHR 0x0A] @ ''step:20/30 val_loss:2.1'' @ [CHR 0x0A])],
      path_str = (\<lambda>p. p), plt_error = Map.empty\<rparr> ''run.txt''
     = Inr ([10, 20], [Fin (5 / 2), Fin (4728779608739021 / 2 ^ 51)])
   \<and> length [10, 20 :: int] = length [Fin (5 / 2), Fin (4728779608739021 / 2 ^ 51)]
   \<and> ([10, 20 :: int] = []) = ([Fin (5 / 2), Fin (4728779608739021 / 2 ^ 51)] = [])"
proof -
  have h: "parse_log_file
     \<lparr>files = [''run.txt'' \<mapsto> Inr (''step:10/30 val_loss:2.5'' @ [CHR 0x0A] @ ''warmup done''
                  @ [CHR 0x0A] @ ''step:20/30 val_loss:2.1'' @ [CHR 0x0A])],
      path_str = (\<lambda>p. p), plt_error = Map.empty\<rparr> ''run.txt''
     = Inr ([10, 20], [Fin (5 / 2), Fin (4728779608739021 / 2 ^ 51)])"
    by (simp add: loop_eval)
  from parse_log_file_aligned [OF h] show ?thesis using h by simp
qed

text \<open>
  C4: the records come in the order of the lines. The \<open>i\<close>-th step and the \<open>i\<close>-th
  loss are read from the \<open>i\<close>-th of the lines that match, so nothing is sorted, merged
  or dropped; a line that does not match leaves the two lists as they are, raises
  nothing, and could as well be absent.
\<close>

theorem extractor_keeps_order:
  "(files ev p = Some (Inr content) \<and> parse_log_file ev p = Inr (steps, losses) \<longrightarrow>
      length steps = length (filter matches (readlines content))
      \<and> length losses = length (filter matches (readlines content))
      \<and> (\<forall>i<length steps.
            record_from (filter matches (readlines content) ! i) (steps ! i, losses ! i)))
   \<and> (search pattern l = None \<longrightarrow>
        body l st = Inr st \<and> for_lines (xs @ l # ys) st = for_lines (xs @ ys) st)"
proof -
  have a: "length steps = length (filter matches (readlines content))
      \<and> length losses = length (filter matches (readlines content))
      \<and> (\<forall>i<length steps.
            record_from (filter matches (readlines content) ! i) (steps ! i, losses ! i))"
    if h: "files ev p = Some (Inr content)" "parse_log_file ev p = Inr (steps, losses)"
  proof -
    from parse_log_file_records [OF h] have
      r: "list_all2 record_from (filter matches (readlines content)) (zip steps losses)"
      and len: "length steps = length losses" by simp_all
    from r have "length (filter matches (readlines content)) = length (zip steps losses)"
      by (rule list_all2_lengthD)
    with len have n: "length (filter matches (readlines content)) = length steps" by simp
    have "record_from (filter matches (readlines content) ! i) (steps ! i, losses ! i)"
      if "i < length steps" for i
    proof -
      from that n have "i < length (filter matches (readlines content))" by simp
      from list_all2_nthD [OF r this]
      show ?thesis using that len by simp
    qed
    with n len show ?thesis by simp
  qed
  have b: "body l st = Inr st \<and> for_lines (xs @ l # ys) st = for_lines (xs @ ys) st"
    if "search pattern l = None"
    using that body_no_match for_lines_skip by simp
  from a b show ?thesis by blast
qed

theorem extractor_keeps_order_witness:
  "parse_log_file
     \<lparr>files = [''run.txt'' \<mapsto> Inr (''step:20/30 val_loss:2.5'' @ [CHR 0x0A] @ ''warmup done''
         @ [CHR 0x0A] @ ''step:10/30 val_loss:3'' @ [CHR 0x0A] @ ''step:20/30 val_loss:2.5'')],
      path_str = (\<lambda>p. p), plt_error = Map.empty\<rparr> ''run.txt''
     = Inr ([20, 10, 20], [Fin (5 / 2), Fin 3, Fin (5 / 2)])
   \<and> filter matches (readlines (''step:20/30 val_loss:2.5'' @ [CHR 0x0A] @ ''warmup done''
         @ [CHR 0x0A] @ ''step:10/30 val_loss:3'' @ [CHR 0x0A] @ ''step:20/30 val_loss:2.5''))
     = [''step:20/30 val_loss:2.5'' @ [CHR 0x0A], ''step:10/30 val_loss:3'' @ [CHR 0x0A],
        ''step:20/30 val_loss:2.5'']
   \<and> record_from (''step:10/30 val_loss:3'' @ [CHR 0x0A]) (10, Fin 3)
   \<and> search pattern (''warmup done'' @ [CHR 0x0A]) = None
   \<and> body (''warmup done'' @ [CHR 0x0A]) ([20], [Fin (5 / 2)]) = Inr ([20], [Fin (5 / 2)])
   \<and> for_lines ([''step:20/30 val_loss:2.5'' @ [CHR 0x0A]] @ (''warmup done'' @ [CHR 0x0A])
         # [''step:10/30 val_loss:3'' @ [CHR 0x0A]]) ([], [])
       = for_lines ([''step:20/30 val_loss:2.5'' @ [CHR 0x0A]]
         @ [''step:10/30 val_loss:3'' @ [CHR 0x0A]]) ([], [])"
proof -
  let ?c = "''step:20/30 val_loss:2.5'' @ [CHR 0x0A] @ ''warmup done''
         @ [CHR 0x0A] @ ''step:10/30 val_loss:3'' @ [CHR 0x0A] @ ''step:20/30 val_loss:2.5''"
  let ?ev = "\<lparr>files = [''run.txt'' \<mapsto> Inr ?c], path_str = (\<lambda>p. p), plt_error = Map.empty\<rparr>"
  have h1: "files ?ev ''run.txt'' = Some (Inr ?c)" by simp
  have h2: "parse_log_file ?ev ''run.txt'' = Inr ([20, 10, 20], [Fin (5 / 2), Fin 3, Fin (5 / 2)])"
    by (simp add: loop_eval)
  have h3: "search pattern (''warmup done'' @ [CHR 0x0A]) = None"
    by (simp add: regex_eval)
  have f: "filter matches (readlines ?c)
     = [''step:20/30 val_loss:2.5'' @ [CHR 0x0A], ''step:10/30 val_loss:3'' @ [CHR 0x0A],
        ''step:20/30 val_loss:2.5'']"
    by (simp add: readlines_def matches_def regex_eval)
  note t = extractor_keeps_order [of ?ev "''run.txt''" ?c "[20, 10, 20]"
      "[Fin (5 / 2), Fin 3, Fin (5 / 2)]" "''warmup done'' @ [CHR 0x0A]"
      "([20], [Fin (5 / 2)])" "[''step:20/30 val_loss:2.5'' @ [CHR 0x0A]]"
      "[''step:10/30 val_loss:3'' @ [CHR 0x0A]]"]
  from t h1 h2 have "\<forall>i<length [20, 10, 20 :: int].
      record_from (filter matches (readlines ?c) ! i)
        ([20, 10, 20] ! i, [Fin (5 / 2), Fin 3, Fin (5 / 2)] ! i)" by blast
  from this [rule_format, of 1]
  have "record_from (filter matches (readlines ?c) ! 1)
        ([20, 10, 20] ! 1, [Fin (5 / 2), Fin 3, Fin (5 / 2)] ! 1)" by simp
  then have r: "record_from (''step:10/30 val_loss:3'' @ [CHR 0x0A]) (10, Fin 3)"
    unfolding f by simp
  from t h3 have s: "body (''warmup done'' @ [CHR 0x0A]) ([20], [Fin (5 / 2)]) = Inr ([20], [Fin (5 / 2)])
    \<and> for_lines ([''step:20/30 val_loss:2.5'' @ [CHR 0x0A]] @ (''warmup done'' @ [CHR 0x0A])
         # [''step:10/30 val_loss:3'' @ [CHR 0x0A]]) ([20], [Fin (5 / 2)])
       = for_lines ([''step:20/30 val_loss:2.5'' @ [CHR 0x0A]]
         @ [''step:10/30 val_loss:3'' @ [CHR 0x0A]]) ([20], [Fin (5 / 2)])" by blast
  have s2: "for_lines ([''step:20/30 val_loss:2.5'' @ [CHR 0x0A]] @ (''warmup done'' @ [CHR 0x0A])
         # [''step:10/30 val_loss:3'' @ [CHR 0x0A]]) ([], [])
       = for_lines ([''step:20/30 val_loss:2.5'' @ [CHR 0x0A]]
         @ [''step:10/30 val_loss:3'' @ [CHR 0x0A]]) ([], [])"
    by (simp add: loop_eval)
  show ?thesis using h2 f r h3 s s2 by (intro conjI) simp_all
qed

text \<open>
  C5: when no line of the file matches (an empty file has no line), the extractor returns
  two empty lists; and the renderer, given no steps, prints its message and returns
  without an error, with no call of the plotting library.
\<close>

theorem no_data_contract:
  "(files ev p = Some (Inr content) \<and> list_all (\<lambda>l. search pattern l = None) (readlines content)
      \<longrightarrow> parse_log_file ev p = Inr ([], []))
   \<and> (files ev p = Some (Inr []) \<longrightarrow> parse_log_file ev p = Inr ([], []))
   \<and> plot_loss ev [] val_losses output_file t = ([Print ''No loss data found in log file!''], None)"
  by (simp add: parse_log_file_def for_lines_no_match readlines_def plot_loss_def)

theorem no_data_contract_witness:
  "files \<lparr>files = [''run.txt'' \<mapsto> Inr (''epoch complete, no metrics'' @ [CHR 0x0A]
                  @ ''step:abc/1000 val_loss:1.0'' @ [CHR 0x0A])], path_str = (\<lambda>p. p), plt_error = Map.empty\<rparr> ''run.txt''
     = Some (Inr (''epoch complete, no metrics'' @ [CHR 0x0A]
                  @ ''step:abc/1000 val_loss:1.0'' @ [CHR 0x0A]))
   \<and> list_all (\<lambda>l. search pattern l = None)
       (readlines (''epoch complete, no metrics'' @ [CHR 0x0A] @ ''step:abc/1000 val_loss:1.0'' @ [CHR 0x0A]))
   \<and> parse_log_file \<lparr>files = [''run.txt'' \<mapsto> Inr (''epoch complete, no metrics'' @ [CHR 0x0A]
                  @ ''step:abc/1000 val_loss:1.0'' @ [CHR 0x0A])], path_str = (\<lambda>p. p), plt_error = Map.empty\<rparr> ''run.txt''
     = Inr ([], [])
   \<and> parse_log_file \<lparr>files = [''empty.txt'' \<mapsto> Inr []], path_str = (\<lambda>p. p), plt_error = Map.empty\<rparr> ''empty.txt''
     = Inr ([], [])
   \<and> plot_loss \<lparr>files = [''empty.txt'' \<mapsto> Inr []], path_str = (\<lambda>p. p), plt_error = Map.empty\<rparr>
        [] [] (Some ''plot.png'') None = ([Print ''No loss data found in log file!''], None)"
proof -
  let ?c = "''epoch complete, no metrics'' @ [CHR 0x0A] @ ''step:abc/1000 val_loss:1.0'' @ [CHR 0x0A]"
  let ?ev = "\<lparr>files = [''run.txt'' \<mapsto> Inr ?c], path_str = (\<lambda>p. p), plt_error = Map.empty\<rparr>"
  let ?evE = "\<lparr>files = [''empty.txt'' \<mapsto> Inr []], path_str = (\<lambda>p. p), plt_error = Map.empty\<rparr>"
  have h1: "files ?ev ''run.txt'' = Some (Inr ?c)" by simp
  have h2: "list_all (\<lambda>l. search pattern l = None) (readlines ?c)"
    by (simp add: readlines_def regex_eval)
  have h3: "files ?evE ''empty.txt'' = Some (Inr [])" by simp
  have r1: "parse_log_file ?ev ''run.txt'' = Inr ([], [])"
    using no_data_contract [of ?ev "''run.txt''" ?c] h1 h2 by blast
  have r2: "parse_log_file ?evE ''empty.txt'' = Inr ([], [])"
    using no_data_contract [of ?evE "''empty.txt''"] h3 by blast
  have r3: "plot_loss ?evE [] [] (Some ''plot.png'') None
      = ([Print ''No loss data found in log file!''], None)"
    using no_data_contract [of ?evE "''empty.txt''" "[]" "[]" "Some ''plot.png''" None] by blast
  show ?thesis
    by (intro conjI h1 h2 r1 r2 r3)
qed




text \<open>
  C7, as the specification states it: no extracted loss is infinite. A token of 310 digits
  is beyond the largest double, and \<^verbatim>\<open>float\<close> gives infinity for it.
\<close>

theorem loss_infinite_counterexample:
  "for_lines [''step:7/9 val_loss:1000000000000000000000000000000000000000000000000000000000000000000000000000000000000000000000000000000000000000000000000000000000000000000000000000000000000000000000000000000000000000000000000000000000000000000000000000000000000000000000000000000000000000000000000000000000000000000000000000000000000000000000''] ([], [])
     = Inr ([7], [PosInf])"
  by (simp add: loop_eval)

text \<open>
  C7, amended: every extracted step is a non-negative integer, and every extracted loss
  is a float that is not negative and not NaN: a finite number from 0 up to (not
  including) \<open>2^1024\<close>, or plus infinity. Plus infinity needs a token of at least 308
  digits: when every line of the file has fewer than 308 characters, every loss is
  finite.
\<close>

theorem records_nonnegative:
  assumes "parse_log_file ev p = Inr (steps, losses)"
  shows "list_all (\<lambda>s. 0 \<le> s) steps
         \<and> list_all (\<lambda>v. v = PosInf \<or> (\<exists>q. v = Fin q \<and> 0 \<le> q \<and> q < 2 ^ 1024)) losses
         \<and> NaN \<notin> set losses \<and> NegInf \<notin> set losses
         \<and> (files ev p = Some (Inr content) \<and> list_all (\<lambda>l. length l < 308) (readlines content)
              \<longrightarrow> PosInf \<notin> set losses)"
proof -
  from assms obtain c where c: "files ev p = Some (Inr c)"
    by (auto simp: parse_log_file_def split: option.splits sum.splits)
  from parse_log_file_records [OF c assms] have
    r: "list_all2 record_from (filter matches (readlines c)) (zip steps losses)"
    and len: "length steps = length losses" by simp_all
  have src: "\<exists>l \<in> set (readlines c). record_from l z" if "z \<in> set (zip steps losses)" for z
    using list_all2_rightD [OF r that] by auto
  have ok: "0 \<le> fst z \<and> (snd z = PosInf \<or> (\<exists>q. snd z = Fin q \<and> 0 \<le> q \<and> q < 2 ^ 1024))"
    if "z \<in> set (zip steps losses)" for z
    using src [OF that] record_from_nonneg by blast
  have s: "0 \<le> x" if "x \<in> set steps" for x
  proof -
    from that len obtain y where "(x, y) \<in> set (zip steps losses)"
      by (metis in_set_impl_in_set_zip1)
    from ok [OF this] show ?thesis by simp
  qed
  have zl: "\<exists>x. (x, y) \<in> set (zip steps losses)" if "y \<in> set losses" for y
    using that len by (metis in_set_impl_in_set_zip2)
  have l: "y = PosInf \<or> (\<exists>q. y = Fin q \<and> 0 \<le> q \<and> q < 2 ^ 1024)" if "y \<in> set losses" for y
    using zl [OF that] ok by fastforce
  have n: "NaN \<notin> set losses" "NegInf \<notin> set losses" using l by blast+
  have fin: "PosInf \<notin> set losses"
    if h: "files ev p = Some (Inr content)" "list_all (\<lambda>l. length l < 308) (readlines content)"
  proof
    assume "PosInf \<in> set losses"
    from zl [OF this] obtain x where "(x, PosInf) \<in> set (zip steps losses)" by blast
    from src [OF this] obtain l where l: "l \<in> set (readlines c)" "record_from l (x, PosInf)"
      by blast
    from h(1) c have "content = c" by simp
    with h(2) l(1) have "length l < 308" by (simp add: list_all_iff)
    from record_from_finite [OF l(2) this] show False by simp
  qed
  from s l n fin show ?thesis by (auto simp: list_all_iff)
qed

theorem records_nonnegative_witness:
  "parse_log_file
     \<lparr>files = [''run.txt'' \<mapsto> Inr (''step:0/30 val_loss:0'' @ [CHR 0x0A] @ ''step:20/30 val_loss:2.1'')],
      path_str = (\<lambda>p. p), plt_error = Map.empty\<rparr> ''run.txt''
     = Inr ([0, 20], [Fin 0, Fin (4728779608739021 / 2 ^ 51)])
   \<and> list_all (\<lambda>l. length l < 308)
        (readlines (''step:0/30 val_loss:0'' @ [CHR 0x0A] @ ''step:20/30 val_loss:2.1''))
   \<and> list_all (\<lambda>s. 0 \<le> s) [0, 20 :: int]
   \<and> list_all (\<lambda>v. v = PosInf \<or> (\<exists>q. v = Fin q \<and> 0 \<le> q \<and> q < 2 ^ 1024))
        [Fin 0, Fin (4728779608739021 / 2 ^ 51)]
   \<and> NaN \<notin> set [Fin 0, Fin (4728779608739021 / 2 ^ 51)]
   \<and> PosInf \<notin> set [Fin 0, Fin (4728779608739021 / 2 ^ 51)]"
proof -
  let ?c = "''step:0/30 val_loss:0'' @ [CHR 0x0A] @ ''step:20/30 val_loss:2.1''"
  let ?ev = "\<lparr>files = [''run.txt'' \<mapsto> Inr ?c], path_str = (\<lambda>p. p), plt_error = Map.empty\<rparr>"
  have h: "parse_log_file ?ev ''run.txt'' = Inr ([0, 20], [Fin 0, Fin (4728779608739021 / 2 ^ 51)])"
    by (simp add: loop_eval)
  have f: "files ?ev ''run.txt'' = Some (Inr ?c)" by simp
  have s: "list_all (\<lambda>l. length l < 308) (readlines ?c)"
    by (simp add: readlines_def)
  from records_nonnegative [OF h, of ?c] f s show ?thesis using h by simp
qed

text \<open>
  C8: on the steps 10, 20, 30 and the losses 2.5, 2.1, 1.9 (the floats that these
  decimals are read as), the summary counts 3 records, the steps from 10 to 30, and the
  losses from 1.9 to 2.5, which it prints with four decimals.
\<close>

theorem summary_statistics:
  "py_float ''2.5'' = Inr (Fin (5 / 2))
   \<and> py_float ''2.1'' = Inr (Fin (4728779608739021 / 2 ^ 51))
   \<and> py_float ''1.9'' = Inr (Fin (4278419646001971 / 2 ^ 51))
   \<and> py_min (<) [10, 20, 30 :: int] = Inr 10
   \<and> py_max (<) [10, 20, 30 :: int] = Inr 30
   \<and> py_min float_lt [Fin (5 / 2), Fin (4728779608739021 / 2 ^ 51), Fin (4278419646001971 / 2 ^ 51)]
       = Inr (Fin (4278419646001971 / 2 ^ 51))
   \<and> py_max float_lt [Fin (5 / 2), Fin (4728779608739021 / 2 ^ 51), Fin (4278419646001971 / 2 ^ 51)]
       = Inr (Fin (5 / 2))
   \<and> summary [10, 20, 30]
         [Fin (5 / 2), Fin (4728779608739021 / 2 ^ 51), Fin (4278419646001971 / 2 ^ 51)]
       = ([''Found 3 validation loss measurements'', ''Steps: 10 to 30'',
           ''Loss range: 1.9000 to 2.5000''], None)"
proof -
  have f: "py_float ''2.5'' = Inr (Fin (5 / 2))"
    "py_float ''2.1'' = Inr (Fin (4728779608739021 / 2 ^ 51))"
    "py_float ''1.9'' = Inr (Fin (4278419646001971 / 2 ^ 51))"
    by (simp_all add: float_eval)
  have m: "py_min (<) [10, 20, 30 :: int] = Inr 10" "py_max (<) [10, 20, 30 :: int] = Inr 30"
    "py_min float_lt [Fin (5 / 2), Fin (4728779608739021 / 2 ^ 51), Fin (4278419646001971 / 2 ^ 51)]
       = Inr (Fin (4278419646001971 / 2 ^ 51))"
    "py_max float_lt [Fin (5 / 2), Fin (4728779608739021 / 2 ^ 51), Fin (4278419646001971 / 2 ^ 51)]
       = Inr (Fin (5 / 2))"
    by simp_all
  have s: "summary [10, 20, 30]
         [Fin (5 / 2), Fin (4728779608739021 / 2 ^ 51), Fin (4278419646001971 / 2 ^ 51)]
       = ([''Found 3 validation loss measurements'', ''Steps: 10 to 30'',
           ''Loss range: 1.9000 to 2.5000''], None)"
    by (simp add: summary_eval)
  show ?thesis by (intro conjI f m s)
qed



text \<open>
  C10: an empty title is false in \<^verbatim>\<open>title or ...\<close>, so the renderer does the same as
  with no title: the same statements, with the same result, and its call that sets the
  title carries the default title.
\<close>

theorem plot_loss_empty_title:
  "plot_loss ev steps val_losses output_file (Some []) = plot_loss ev steps val_losses output_file None
   \<and> plot_loss_calls steps val_losses output_file (Some [])
       = plot_loss_calls steps val_losses output_file None
   \<and> Plt (Title ''Validation Loss Over Training'' 14)
       \<in> set (plot_loss_calls (s # steps) val_losses output_file (Some []))
   \<and> (snd (plot_loss ev (s # steps) val_losses output_file (Some [])) = None \<longrightarrow>
        Plt (Title ''Validation Loss Over Training'' 14)
          \<in> set (fst (plot_loss ev (s # steps) val_losses output_file (Some []))))"
proof -
  have c: "plot_loss_calls xs val_losses output_file (Some [])
       = plot_loss_calls xs val_losses output_file None" for xs
    by (simp add: plot_loss_calls_def py_or_def)
  have t: "Plt (Title ''Validation Loss Over Training'' 14)
       \<in> set (plot_loss_calls (s # steps) val_losses output_file (Some []))"
    by (simp add: plot_loss_calls_def py_or_def)
  have r: "Plt (Title ''Validation Loss Over Training'' 14)
          \<in> set (fst (plot_loss ev (s # steps) val_losses output_file (Some [])))"
    if "snd (plot_loss ev (s # steps) val_losses output_file (Some [])) = None"
  proof -
    from that have "run_events ev (plot_loss_calls (s # steps) val_losses output_file (Some []))
        = (fst (plot_loss ev (s # steps) val_losses output_file (Some [])), None)"
      by (simp add: plot_loss_def prod_eq_iff)
    from run_events_returned [OF this] t show ?thesis by simp
  qed
  from c t r show ?thesis by (simp add: plot_loss_def)
qed

theorem plot_loss_empty_title_witness:
  "plot_loss \<lparr>files = Map.empty, path_str = (\<lambda>p. p), plt_error = Map.empty\<rparr>
       [10] [Fin (5 / 2)] None (Some [])
     = ([Plt (Figure (10, 6)),
         Plt (Plot [10] [Fin (5 / 2)] ''b-'' 2 ''o'' 4),
         Plt (Xlabel ''Training Step'' 12),
         Plt (Ylabel ''Validation Loss'' 12),
         Plt (Title ''Validation Loss Over Training'' 14),
         Plt (Grid True (3 / 10)),
         Plt TightLayout,
         Plt Show], None)
   \<and> plot_loss \<lparr>files = Map.empty, path_str = (\<lambda>p. p), plt_error = Map.empty\<rparr>
       [10] [Fin (5 / 2)] None None
     = plot_loss \<lparr>files = Map.empty, path_str = (\<lambda>p. p), plt_error = Map.empty\<rparr>
       [10] [Fin (5 / 2)] None (Some [])
   \<and> Plt (Title ''Validation Loss Over Training'' 14)
       \<in> set (fst (plot_loss \<lparr>files = Map.empty, path_str = (\<lambda>p. p), plt_error = Map.empty\<rparr>
             [10] [Fin (5 / 2)] None (Some [])))"
proof -
  let ?ev = "\<lparr>files = Map.empty, path_str = (\<lambda>p. p), plt_error = Map.empty\<rparr>"
  have v: "plot_loss ?ev [10] [Fin (5 / 2)] None (Some [])
     = ([Plt (Figure (10, 6)),
         Plt (Plot [10] [Fin (5 / 2)] ''b-'' 2 ''o'' 4),
         Plt (Xlabel ''Training Step'' 12),
         Plt (Ylabel ''Validation Loss'' 12),
         Plt (Title ''Validation Loss Over Training'' 14),
         Plt (Grid True (3 / 10)),
         Plt TightLayout,
         Plt Show], None)"
    by (simp add: plot_loss_def plot_loss_calls_def py_or_def call_error_def)
  then have n: "snd (plot_loss ?ev [10] [Fin (5 / 2)] None (Some [])) = None" by simp
  from plot_loss_empty_title [of ?ev "[10]" "[Fin (5 / 2)]" None]
  have e: "plot_loss ?ev [10] [Fin (5 / 2)] None None = plot_loss ?ev [10] [Fin (5 / 2)] None (Some [])"
    by simp
  from plot_loss_empty_title [of ?ev "[]" "[Fin (5 / 2)]" None 10] n
  have t: "Plt (Title ''Validation Loss Over Training'' 14)
       \<in> set (fst (plot_loss ?ev [10] [Fin (5 / 2)] None (Some [])))"
    by blast
  show ?thesis by (intro conjI v e t)
qed

end
